theory Spec2Isabelle
  imports Complex_Main
begin

section \<open>Playback controller (upolly/src/App.tsx)\<close>

text \<open>
  Times are JavaScript numbers, that is IEEE doubles; a double is modelled by the real
  it denotes (no NaN, no infinity). Comparing two doubles is exact; the one
  floating-point operation of the controller, the subtraction in the end-of-sentence test
  of \<open>handleRepeatLogic\<close>, is rounded as the source rounds it (see \<open>toDouble\<close> below).
  Indices and counters are JavaScript numbers holding small integers, on which the
  source's arithmetic is exact; they are modelled as \<open>int\<close>, so that the sentinel \<open>-1\<close>
  and out-of-range indices are ordinary values.
\<close>

record Sentence =
  sentenceText :: string
  start :: real
  endT :: real

datatype RepeatMode = RepeatOff | RepeatSentence | RepeatAll

record AppState =
  showForm :: bool
  selectedFile :: "string option"
  uploadMessage :: string
  sentences :: "Sentence list"
  audioFilename :: string
  audioUrl :: string
  isPlaying :: bool
  currentSentenceIndex :: int
  currentTime :: real
  playbackSpeed :: real
  repeatMode :: RepeatMode
  repeatCount :: int
  currentRepeat :: int
  isRepeating :: bool
  repeatSentenceIndex :: int
  isMobile :: bool
  showMobileHelp :: bool
  isUploading :: bool

text \<open>
  The audio element is the transport. A handler sees it through \<open>audioRef.current\<close>,
  which is \<open>None\<close> while no element is mounted and otherwise gives the element's
  \<open>currentTime\<close>. What a handler does to the element is returned as a list of commands,
  in the order the handler issues them; \<open>SetTimeout d c\<close> is a command scheduled with
  \<open>setTimeout\<close> to run \<open>d\<close> milliseconds later. \<open>SetInterval d\<close> starts the interval
  that calls \<open>updateCurrentSentence\<close> every \<open>d\<close> milliseconds, and \<open>ClearInterval\<close> stops
  it if it is running.
\<close>

datatype Cmd =
    SetCurrentTime real
  | Play
  | Pause
  | SetPlaybackRate real
  | SetInterval nat
  | ClearInterval
  | SetTimeout nat Cmd

datatype error = TypeError

text \<open>The state a freshly mounted component starts from (\<open>useState\<close>).\<close>

definition initialState :: AppState where
  "initialState = \<lparr> showForm = False, selectedFile = None, uploadMessage = [],
     sentences = [], audioFilename = [], audioUrl = [],
     isPlaying = False, currentSentenceIndex = -1, currentTime = 0, playbackSpeed = 1,
     repeatMode = RepeatOff, repeatCount = 3, currentRepeat = 0, isRepeating = False,
     repeatSentenceIndex = -1,
     isMobile = False, showMobileHelp = False, isUploading = False \<rparr>"

text \<open>
  \<open>state.sentences[index]\<close>: \<open>undefined\<close> (here \<open>None\<close>) for every index that is
  not the position of an element.
\<close>

definition sentenceAt :: "Sentence list \<Rightarrow> int \<Rightarrow> Sentence option" where
  "sentenceAt xs i = (if 0 \<le> i \<and> i < int (length xs) then Some (xs ! nat i) else None)"

text \<open>
  Every handler is a closure over the \<open>state\<close> of the render that created it, and
  writes through \<open>updateState\<close>, which merges the given fields into the pending state.
  A handler is therefore a function of the captured \<open>state\<close> (read only) and of the
  pending state \<open>prev\<close> it updates; a handler called on its own starts from
  \<open>prev = state\<close>.
\<close>

definition jumpToSentence :: "AppState \<Rightarrow> real option \<Rightarrow> int \<Rightarrow> AppState \<times> Cmd list" where
  "jumpToSentence state audioRef index =
     (case audioRef of
        None \<Rightarrow> (state, [])
      | Some _ \<Rightarrow>
          (case sentenceAt (sentences state) index of
             None \<Rightarrow> (state, [])
           | Some s \<Rightarrow>
               (state\<lparr> currentSentenceIndex := index, currentRepeat := 0,
                        isRepeating := False, repeatSentenceIndex := -1 \<rparr>,
                [SetCurrentTime (start s)])))"

definition handleRepeatModeChange :: "AppState \<Rightarrow> RepeatMode \<Rightarrow> AppState" where
  "handleRepeatModeChange state mode =
     state\<lparr> repeatMode := mode, currentRepeat := 0, isRepeating := False,
            repeatSentenceIndex := -1 \<rparr>"

definition handleRepeatCountChange :: "AppState \<Rightarrow> int \<Rightarrow> AppState" where
  "handleRepeatCountChange state count = state\<lparr> repeatCount := count \<rparr>"

text \<open>The scan of \<open>updateCurrentSentence\<close>: the loop from index \<open>i\<close> on, with its \<open>break\<close>.\<close>

fun findFrom :: "int \<Rightarrow> Sentence list \<Rightarrow> real \<Rightarrow> int" where
  "findFrom i [] time = -1"
| "findFrom i (sentence # rest) time =
     (if time \<ge> start sentence \<and> time \<le> endT sentence then i
      else findFrom (i + 1) rest time)"

definition foundIndex :: "Sentence list \<Rightarrow> real \<Rightarrow> int" where
  "foundIndex xs time = findFrom 0 xs time"

definition updateCurrentSentence :: "AppState \<Rightarrow> real option \<Rightarrow> AppState \<Rightarrow> AppState" where
  "updateCurrentSentence state audioRef prev =
     (case audioRef of
        None \<Rightarrow> prev
      | Some time \<Rightarrow>
          prev\<lparr> currentTime := time,
                currentSentenceIndex := foundIndex (sentences state) time \<rparr>)"

text \<open>
  IEEE double arithmetic. \<open>toDouble x\<close> is the double nearest to \<open>x\<close>, ties going to the
  even significand: the value a decimal literal denotes and the result of an arithmetic
  operation whose exact result is \<open>x\<close>. It leaves a double unchanged. The magnitude is
  scaled by powers of two into [2^52, 2^53), where the doubles are the integers, rounded
  there, and scaled back; the scaling stops at the smallest exponent (subnormal numbers).
  Magnitudes beyond the largest double, where the source has \<open>Infinity\<close>, are outside the
  model.
\<close>

function scaleUp :: "nat \<Rightarrow> real \<Rightarrow> real \<Rightarrow> real \<times> real" where
  "scaleUp n y m =
     (if n = 0 \<or> y \<ge> 4503599627370496 then (y, m) else scaleUp (n - 1) (y * 2) (m / 2))"
  by pat_completeness auto
termination
  by (relation "measure (\<lambda>(n, y, m). n)") auto

function scaleDown :: "nat \<Rightarrow> real \<Rightarrow> real \<Rightarrow> real \<times> real" where
  "scaleDown n y m =
     (if n = 0 \<or> y < 9007199254740992 then (y, m) else scaleDown (n - 1) (y / 2) (m * 2))"
  by pat_completeness auto
termination
  by (relation "measure (\<lambda>(n, y, m). n)") auto

declare scaleUp.simps [simp del] scaleDown.simps [simp del]

definition roundHalfEven :: "real \<Rightarrow> int" where
  "roundHalfEven y =
     (let f = \<lfloor>y\<rfloor>; d = y - of_int f
      in if d < 1 / 2 then f else if d > 1 / 2 then f + 1 else if even f then f else f + 1)"

definition toDouble :: "real \<Rightarrow> real" where
  "toDouble x =
     (if x = 0 then 0
      else (case (if \<bar>x\<bar> < 4503599627370496 then scaleUp 1074 \<bar>x\<bar> 1
                  else scaleDown 971 \<bar>x\<bar> 1) of
              (y, m) \<Rightarrow> sgn x * of_int (roundHalfEven y) * m))"

text \<open>
  The end-of-sentence test \<open>time >= currentSentence.end - 0.1\<close>: the literal \<open>0.1\<close> is the
  double nearest to one tenth, the difference is rounded to a double, and the comparison
  is between doubles. The two operands are doubles in the source; \<open>toDouble\<close> leaves them
  as they are, and reads a real that is not a double as the decimal literal of that
  value would be read.
\<close>

definition pastSentenceEnd :: "real \<Rightarrow> real \<Rightarrow> bool" where
  "pastSentenceEnd time e \<longleftrightarrow> toDouble time \<ge> toDouble (toDouble e - toDouble 0.1)"

text \<open>
  \<open>handleRepeatLogic\<close>. Reading \<open>.end\<close> of \<open>state.sentences[state.currentSentenceIndex]\<close>
  throws a TypeError when that element is \<open>undefined\<close>. The final block (the reset on a
  natural move to another sentence) is reached on every path that does not \<open>return\<close>.
\<close>

definition resetOnMove :: "AppState \<Rightarrow> AppState \<Rightarrow> AppState" where
  "resetOnMove state prev =
     (if currentSentenceIndex state \<ge> 0
         \<and> repeatSentenceIndex state \<noteq> currentSentenceIndex state
         \<and> isRepeating state
      then prev\<lparr> isRepeating := False, repeatSentenceIndex := -1, currentRepeat := 0 \<rparr>
      else prev)"

definition alreadyRepeating ::
  "AppState \<Rightarrow> Sentence \<Rightarrow> AppState \<Rightarrow> Cmd list \<Rightarrow> error + AppState \<times> Cmd list" where
  "alreadyRepeating state currentSentence prev cmds =
     (if isRepeating state \<and> repeatSentenceIndex state = currentSentenceIndex state then
        (if currentRepeat state < repeatCount state then
           Inr (prev\<lparr> currentRepeat := currentRepeat state + 1 \<rparr>,
                cmds @ [SetTimeout 100 (SetCurrentTime (start currentSentence))])
         else
           (let prev1 = prev\<lparr> isRepeating := False, repeatSentenceIndex := -1,
                               currentRepeat := 0 \<rparr>
            in if currentSentenceIndex state < int (length (sentences state)) - 1 then
                 Inr (resetOnMove state prev1,
                      cmds @ [SetTimeout 200 (SetCurrentTime
                        (start (sentences state ! nat (currentSentenceIndex state + 1))))])
               else Inr (resetOnMove state prev1, cmds @ [Pause])))
      else Inr (resetOnMove state prev, cmds))"

definition handleRepeatLogic ::
  "AppState \<Rightarrow> real option \<Rightarrow> AppState \<Rightarrow> error + AppState \<times> Cmd list" where
  "handleRepeatLogic state audioRef prev =
     (case audioRef of
        None \<Rightarrow> Inr (prev, [])
      | Some time \<Rightarrow>
          if repeatMode state \<noteq> RepeatSentence \<or> currentSentenceIndex state < 0
          then Inr (prev, [])
          else
            (case sentenceAt (sentences state) (currentSentenceIndex state) of
               None \<Rightarrow> Inl TypeError
             | Some currentSentence \<Rightarrow>
                 if pastSentenceEnd time (endT currentSentence) then
                   (if \<not> isRepeating state then
                      (let prev1 = prev\<lparr> isRepeating := True,
                                          repeatSentenceIndex := currentSentenceIndex state,
                                          currentRepeat := 1 \<rparr>
                       in if currentRepeat state < repeatCount state - 1
                          then Inr (prev1, [SetTimeout 100 (SetCurrentTime (start currentSentence))])
                          else alreadyRepeating state currentSentence prev1 [])
                    else alreadyRepeating state currentSentence prev [])
                 else Inr (resetOnMove state prev, [])))"

text \<open>The handlers of the main audio effect.\<close>

definition handleTimeUpdate :: "AppState \<Rightarrow> real option \<Rightarrow> error + AppState \<times> Cmd list" where
  "handleTimeUpdate state audioRef =
     handleRepeatLogic state audioRef (updateCurrentSentence state audioRef state)"

definition handlePlay :: "AppState \<Rightarrow> AppState \<times> Cmd list" where
  "handlePlay state =
     (state\<lparr> isPlaying := True \<rparr>, [SetPlaybackRate (playbackSpeed state), SetInterval 100])"

definition handlePause :: "AppState \<Rightarrow> AppState \<times> Cmd list" where
  "handlePause state = (state\<lparr> isPlaying := False \<rparr>, [ClearInterval])"

definition handleEnded :: "AppState \<Rightarrow> AppState \<times> Cmd list" where
  "handleEnded state =
     (state\<lparr> isPlaying := False, currentSentenceIndex := -1, currentRepeat := 0,
              isRepeating := False, repeatSentenceIndex := -1 \<rparr>,
      ClearInterval #
      (if repeatMode state = RepeatAll then [SetCurrentTime 0, Play] else []))"

subsection \<open>Events and runs\<close>

text \<open>
  The operations of the controller. \<open>TimeUpdate\<close> is the audio element's
  \<open>timeupdate\<close> notification, \<open>IntervalTick\<close> the 100 ms interval started by
  \<open>handlePlay\<close> (it runs \<open>updateCurrentSentence\<close> only). The main audio effect
  registers the four audio listeners only when the element is mounted and the sentence
  list is not empty; the three user commands are always available.
\<close>

datatype Event =
    TimeUpdate
  | IntervalTick
  | PlayEvent
  | PauseEvent
  | EndedEvent
  | JumpTo int
  | RepeatModeChange RepeatMode
  | RepeatCountChange int

definition dispatch :: "AppState \<Rightarrow> real option \<Rightarrow> Event \<Rightarrow> error + AppState \<times> Cmd list" where
  "dispatch state audioRef ev =
     (case ev of
        JumpTo index \<Rightarrow> Inr (jumpToSentence state audioRef index)
      | RepeatModeChange mode \<Rightarrow> Inr (handleRepeatModeChange state mode, [])
      | RepeatCountChange count \<Rightarrow> Inr (handleRepeatCountChange state count, [])
      | _ \<Rightarrow>
          if audioRef = None \<or> sentences state = [] then Inr (state, [])
          else (case ev of
                  TimeUpdate \<Rightarrow> handleTimeUpdate state audioRef
                | IntervalTick \<Rightarrow> Inr (updateCurrentSentence state audioRef state, [])
                | PlayEvent \<Rightarrow> Inr (handlePlay state)
                | PauseEvent \<Rightarrow> Inr (handlePause state)
                | EndedEvent \<Rightarrow> Inr (handleEnded state)
                | _ \<Rightarrow> Inr (state, [])))"

fun run :: "AppState \<Rightarrow> (real option \<times> Event) list \<Rightarrow> error + AppState" where
  "run s [] = Inr s"
| "run s ((audioRef, ev) # rest) =
     (case dispatch s audioRef ev of
        Inl e \<Rightarrow> Inl e
      | Inr (s', cmds) \<Rightarrow> run s' rest)"

text \<open>
  A session starts in a state left by \<open>resetAudioState\<close> (called whenever a sentence list
  is loaded), with a repeat count of at least 1, as every option of the selector is.
\<close>

definition sessionStart :: "AppState \<Rightarrow> bool" where
  "sessionStart s \<longleftrightarrow>
     1 \<le> repeatCount s \<and> currentSentenceIndex s = -1 \<and> currentRepeat s = 0 \<and>
     \<not> isRepeating s \<and> repeatSentenceIndex s = -1"

text \<open>
  The repeat-count changes under which the bound on \<open>currentRepeat\<close> is kept: the new
  count is at least 1 and not below the repeats already counted.
\<close>

definition allowed :: "AppState \<Rightarrow> Event \<Rightarrow> bool" where
  "allowed s ev =
     (case ev of RepeatCountChange n \<Rightarrow> 1 \<le> n \<and> currentRepeat s \<le> n | _ \<Rightarrow> True)"

inductive reachable :: "AppState \<Rightarrow> bool" where
  reach_start: "sessionStart s \<Longrightarrow> reachable s"
| reach_step: "reachable s \<Longrightarrow> allowed s ev \<Longrightarrow> dispatch s audioRef ev = Inr (s', cmds)
     \<Longrightarrow> reachable s'"

text \<open>The invariant as the specification words it.\<close>

definition specInvariant :: "AppState \<Rightarrow> bool" where
  "specInvariant s \<longleftrightarrow>
     (isRepeating s \<longrightarrow>
        (0 \<le> currentSentenceIndex s \<and> currentSentenceIndex s < int (length (sentences s))) \<and>
        0 \<le> currentRepeat s \<and> currentRepeat s \<le> repeatCount s)"

text \<open>The invariant the handlers keep: the cycle is pinned to \<open>repeatSentenceIndex\<close>.\<close>

definition cycleInv :: "AppState \<Rightarrow> bool" where
  "cycleInv s \<longleftrightarrow>
     1 \<le> repeatCount s \<and>
     -1 \<le> currentSentenceIndex s \<and> currentSentenceIndex s < int (length (sentences s)) \<and>
     (if isRepeating s
      then 0 \<le> repeatSentenceIndex s \<and> repeatSentenceIndex s < int (length (sentences s))
           \<and> 1 \<le> currentRepeat s \<and> currentRepeat s \<le> repeatCount s
      else currentRepeat s = 0 \<and> repeatSentenceIndex s = -1)"



section \<open>Aligner (frontend/src/components/AudioProcessor.ts)\<close>

text \<open>
  A JavaScript string is a sequence of UTF-16 code units; a code unit is modelled by its
  number. \<open>js\<close> writes an ASCII literal as such a sequence. The identifier of a segment,
  the text \<open>segment_\<close> followed by a number, is modelled by that number.
  \<open>processTranscriptionIntoSegments\<close> is modelled by the value its promise resolves to;
  its second argument, the audio file, is never read.
\<close>

type_synonym jsstring = "nat list"

definition js :: "string \<Rightarrow> jsstring" where
  "js s = map of_char s"

record WordTimestamp =
  word :: jsstring
  wstart :: real
  wend :: real

record TranscriptionSegment =
  tsText :: jsstring
  tsWords :: "WordTimestamp list option"

record TranscriptionResult =
  segments :: "TranscriptionSegment list"
  trText :: jsstring

record AudioSegment =
  segId :: nat
  segText :: jsstring
  startTime :: real
  endTime :: real

text \<open>
  The code units that the regular expression class \<open>\s\<close> matches; \<open>trim\<close> strips the
  same set (white space and line terminators).
\<close>

definition isSpace :: "nat \<Rightarrow> bool" where
  "isSpace c \<longleftrightarrow>
     c = 9 \<or> c = 10 \<or> c = 11 \<or> c = 12 \<or> c = 13 \<or> c = 32 \<or> c = 160 \<or> c = 5760 \<or>
     (8192 \<le> c \<and> c \<le> 8202) \<or> c = 8232 \<or> c = 8233 \<or> c = 8239 \<or> c = 8287 \<or>
     c = 12288 \<or> c = 65279"

definition trim :: "jsstring \<Rightarrow> jsstring" where
  "trim s = rev (dropWhile isSpace (rev (dropWhile isSpace s)))"

text \<open>\<open>text.replace(/\s+/g, ' ')\<close>: every maximal run of white space becomes one space.\<close>

function collapseSpaces :: "jsstring \<Rightarrow> jsstring" where
  "collapseSpaces [] = []"
| "collapseSpaces (c # cs) =
     (if isSpace c then 32 # collapseSpaces (dropWhile isSpace cs)
      else c # collapseSpaces cs)"
  by pat_completeness auto
termination
  by (relation "measure length") (auto simp: less_Suc_eq_le length_dropWhile_le)

text \<open>
  \<open>cleanText.split(/(?<=[.!?])\s+/)\<close>. The scan keeps the code unit before the current
  position (\<open>prev\<close>, for the lookbehind) and the piece read so far (\<open>cur\<close>); a separator is a
  maximal run of white space that follows one of \<open>.\<close>, \<open>!\<close>, \<open>?\<close>.
\<close>

definition sentenceEnd :: "nat option \<Rightarrow> bool" where
  "sentenceEnd prev \<longleftrightarrow> prev = Some 46 \<or> prev = Some 33 \<or> prev = Some 63"

function splitSentences :: "nat option \<Rightarrow> jsstring \<Rightarrow> jsstring \<Rightarrow> jsstring list" where
  "splitSentences prev cur [] = [cur]"
| "splitSentences prev cur (c # cs) =
     (if isSpace c \<and> sentenceEnd prev
      then cur # splitSentences (Some (last (c # takeWhile isSpace cs))) [] (dropWhile isSpace cs)
      else splitSentences (Some c) (cur @ [c]) cs)"
  by pat_completeness auto
termination
  by (relation "measure (\<lambda>(prev, cur, s). length s)") (auto simp: less_Suc_eq_le length_dropWhile_le)

definition tokenizeSentences :: "jsstring \<Rightarrow> jsstring list" where
  "tokenizeSentences text =
     (let cleanText = trim (collapseSpaces text)
      in map trim (filter (\<lambda>sentence. length (trim sentence) > 0)
                     (splitSentences None [] cleanText)))"

text \<open>\<open>buildCharToWordMapping\<close>: one entry per code unit of each word, the word's index.\<close>

fun c2wFrom :: "nat \<Rightarrow> WordTimestamp list \<Rightarrow> nat list" where
  "c2wFrom wordIdx [] = []"
| "c2wFrom wordIdx (w # ws) = replicate (length (word w)) wordIdx @ c2wFrom (wordIdx + 1) ws"

definition buildCharToWordMapping :: "WordTimestamp list \<Rightarrow> nat list" where
  "buildCharToWordMapping words = c2wFrom 0 words"

text \<open>
  \<open>s.indexOf(pat, pos)\<close>: the first position at or after \<open>pos\<close> where \<open>pat\<close> occurs, \<open>None\<close> for
  the result \<open>-1\<close>.
\<close>

fun indexOfAt :: "nat \<Rightarrow> jsstring \<Rightarrow> jsstring \<Rightarrow> nat option" where
  "indexOfAt k [] pat = (if pat = [] then Some k else None)"
| "indexOfAt k (c # cs) pat =
     (if take (length pat) (c # cs) = pat then Some k else indexOfAt (k + 1) cs pat)"

definition indexOf :: "jsstring \<Rightarrow> jsstring \<Rightarrow> nat \<Rightarrow> nat option" where
  "indexOf s pat pos = indexOfAt (min pos (length s)) (drop pos s) pat"

text \<open>\<open>words[i]?.start || 0\<close>: 0 when the word is missing or its time is 0.\<close>

definition orZero :: "real option \<Rightarrow> real" where
  "orZero v = (case v of None \<Rightarrow> 0 | Some x \<Rightarrow> if x = 0 then 0 else x)"

definition wordAt :: "WordTimestamp list \<Rightarrow> nat \<Rightarrow> WordTimestamp option" where
  "wordAt ws i = (if i < length ws then Some (ws ! i) else None)"

text \<open>
  The loop over the sentences, from sentence number \<open>i\<close> on, with the search cursor
  \<open>prevEnd\<close>; each \<open>continue\<close> goes on with the cursor unchanged.
\<close>

fun segmentLoop ::
  "jsstring \<Rightarrow> nat list \<Rightarrow> WordTimestamp list \<Rightarrow> nat \<Rightarrow> nat \<Rightarrow> jsstring list \<Rightarrow> AudioSegment list" where
  "segmentLoop fullText charToWord words prevEnd i [] = []"
| "segmentLoop fullText charToWord words prevEnd i (s # rest) =
     (let sentence = trim s in
      if sentence = [] then segmentLoop fullText charToWord words prevEnd (i + 1) rest
      else
        (case indexOf fullText sentence prevEnd of
           None \<Rightarrow> segmentLoop fullText charToWord words prevEnd (i + 1) rest
         | Some startPos \<Rightarrow>
             (let endPos = startPos + length sentence in
              if startPos \<ge> length charToWord \<or> endPos - 1 \<ge> length charToWord
              then segmentLoop fullText charToWord words prevEnd (i + 1) rest
              else
                (let wordStartIdx = charToWord ! startPos;
                     wordEndIdx = charToWord ! (endPos - 1)
                 in \<lparr> segId = i + 1, segText = sentence,
                       startTime = orZero (map_option wstart (wordAt words wordStartIdx)),
                       endTime = orZero (map_option wend (wordAt words wordEndIdx)) \<rparr>
                    # segmentLoop fullText charToWord words endPos (i + 1) rest))))"

definition gatherWords :: "TranscriptionResult \<Rightarrow> WordTimestamp list" where
  "gatherWords result =
     concat (map (\<lambda>segment. case tsWords segment of None \<Rightarrow> [] | Some ws \<Rightarrow> ws) (segments result))"

definition fullTextOf :: "WordTimestamp list \<Rightarrow> jsstring" where
  "fullTextOf words = trim (filter (\<lambda>c. c \<noteq> 10) (concat (map word words)))"

definition processTranscriptionIntoSegments :: "TranscriptionResult \<Rightarrow> AudioSegment list" where
  "processTranscriptionIntoSegments result =
     (let words = gatherWords result in
      if words = [] then []
      else
        (let fullText = fullTextOf words;
             sentences = tokenizeSentences fullText;
             charToWord = buildCharToWordMapping words
         in segmentLoop fullText charToWord words 0 0 sentences))"

text \<open>
  The search cursor \<open>prevEnd\<close> of the loop after a list of sentences has been processed.
\<close>

fun cursorAfter :: "jsstring \<Rightarrow> nat list \<Rightarrow> nat \<Rightarrow> jsstring list \<Rightarrow> nat" where
  "cursorAfter fullText charToWord prevEnd [] = prevEnd"
| "cursorAfter fullText charToWord prevEnd (s # rest) =
     (let sentence = trim s in
      if sentence = [] then cursorAfter fullText charToWord prevEnd rest
      else
        (case indexOf fullText sentence prevEnd of
           None \<Rightarrow> cursorAfter fullText charToWord prevEnd rest
         | Some startPos \<Rightarrow>
             (let endPos = startPos + length sentence in
              if startPos \<ge> length charToWord \<or> endPos - 1 \<ge> length charToWord
              then cursorAfter fullText charToWord prevEnd rest
              else cursorAfter fullText charToWord endPos rest)))"

text \<open>
  The specification's words: the text contains the sentence as an exact substring at or
  after the search cursor.
\<close>

definition occursFrom :: "jsstring \<Rightarrow> jsstring \<Rightarrow> nat \<Rightarrow> bool" where
  "occursFrom s pat pos \<longleftrightarrow> (\<exists>k \<in> {pos..length s}. take (length pat) (drop k s) = pat)"

section \<open>Sample data\<close>

text \<open>Concrete sentence lists and states at which the theorems below are evaluated.\<close>

definition touching :: "Sentence list" where
  "touching = [\<lparr> sentenceText = ''Hi.'', start = 0, endT = 5 \<rparr>,
               \<lparr> sentenceText = ''Bye.'', start = 5, endT = 10 \<rparr>]"

definition overlapping :: "Sentence list" where
  "overlapping = [\<lparr> sentenceText = ''One.'', start = 0, endT = 10 \<rparr>,
                  \<lparr> sentenceText = ''Two.'', start = 3, endT = 5 \<rparr>,
                  \<lparr> sentenceText = ''Three.'', start = 5, endT = 8 \<rparr>]"

definition gapped :: "Sentence list" where
  "gapped = [\<lparr> sentenceText = ''Hi.'', start = 0, endT = 1 \<rparr>,
             \<lparr> sentenceText = ''Bye.'', start = 2, endT = 3 \<rparr>]"

definition loaded :: "Sentence list \<Rightarrow> AppState" where
  "loaded xs = initialState\<lparr> sentences := xs, audioUrl := ''blob:audio'' \<rparr>"

definition midCycle :: AppState where
  "midCycle = (loaded touching)\<lparr> repeatMode := RepeatSentence, currentSentenceIndex := 0,
      isRepeating := True, repeatSentenceIndex := 0, currentRepeat := 1 \<rparr>"

definition sentenceMode :: "Sentence list \<Rightarrow> AppState" where
  "sentenceMode xs = (loaded xs)\<lparr> repeatMode := RepeatSentence \<rparr>"

definition cycleInGap :: AppState where
  "cycleInGap = (sentenceMode gapped)\<lparr> currentTime := 1.05, currentSentenceIndex := -1,
      isRepeating := True, repeatSentenceIndex := 0, currentRepeat := 1 \<rparr>"

definition countLowered :: AppState where
  "countLowered = (sentenceMode gapped)\<lparr> currentTime := 0.95, currentSentenceIndex := 0,
      isRepeating := True, repeatSentenceIndex := 0, currentRepeat := 2, repeatCount := 1 \<rparr>"

definition cycleStarted :: AppState where
  "cycleStarted = (sentenceMode gapped)\<lparr> currentTime := 0.95, currentSentenceIndex := 0,
      isRepeating := True, repeatSentenceIndex := 0, currentRepeat := 1 \<rparr>"



definition hiBye :: TranscriptionResult where
  "hiBye = \<lparr> segments = [\<lparr> tsText = js ''Hi. Bye.'', tsWords = Some
       [\<lparr> word = js ''Hi.'', wstart = 0, wend = 1 \<rparr>,
        \<lparr> word = js '' Bye.'', wstart = 1, wend = 2 \<rparr>] \<rparr>],
     trText = js ''Hi. Bye.'' \<rparr>"

definition zeroDuration :: TranscriptionResult where
  "zeroDuration = \<lparr> segments = [\<lparr> tsText = js ''Hi.'', tsWords = Some
       [\<lparr> word = js ''Hi.'', wstart = 1, wend = 1 \<rparr>] \<rparr>],
     trText = js ''Hi.'' \<rparr>"

definition doubleSpace :: TranscriptionResult where
  "doubleSpace = \<lparr> segments = [\<lparr> tsText = js ''Hi. Bye  now. Ok.'', tsWords = Some
       [\<lparr> word = js ''Hi.'', wstart = 0, wend = 1 \<rparr>,
        \<lparr> word = js '' Bye'', wstart = 1, wend = 2 \<rparr>,
        \<lparr> word = js ''  now.'', wstart = 2, wend = 3 \<rparr>,
        \<lparr> word = js '' Ok.'', wstart = 3, wend = 4 \<rparr>] \<rparr>],
     trText = js ''Hi. Bye  now. Ok.'' \<rparr>"

section \<open>Evaluation\<close>

lemmas eval_defs = dispatch_def handleTimeUpdate_def handleRepeatLogic_def
  updateCurrentSentence_def alreadyRepeating_def resetOnMove_def sentenceAt_def foundIndex_def
  handleRepeatCountChange_def handleRepeatModeChange_def
  loaded_def initialState_def sentenceMode_def gapped_def

lemmas ieee_eval = pastSentenceEnd_def toDouble_def roundHalfEven_def scaleUp.simps
  scaleDown.simps

lemmas aligner_eval = js_def processTranscriptionIntoSegments_def gatherWords_def fullTextOf_def
  tokenizeSentences_def trim_def isSpace_def sentenceEnd_def buildCharToWordMapping_def
  indexOf_def orZero_def wordAt_def

section \<open>Properties of the playback controller\<close>

subsection \<open>The end-of-sentence test at the sample data\<close>

lemma to_double_tenth: "toDouble 0.1 = 3602879701896397 / 36028797018963968"
  by (simp add: ieee_eval)

text \<open>
  Where rounding decides: \<open>2 - 0.1\<close> is the double of \<open>1.9\<close>, so the test succeeds at
  \<open>1.9\<close>; \<open>0.4 - 0.1\<close> is \<open>0.30000000000000004\<close>, above the double of \<open>0.3\<close>, so the
  test fails at \<open>0.3\<close>.
\<close>

lemma past_end_rounding: "pastSentenceEnd 1.9 2" "\<not> pastSentenceEnd 0.3 0.4"
  by (simp_all add: ieee_eval)

lemma past_end_1: "pastSentenceEnd 1.05 1" "pastSentenceEnd 0.95 1" "\<not> pastSentenceEnd 0.5 1"
  by (simp_all add: ieee_eval)

lemma past_end_5:
  "pastSentenceEnd 5.05 5" "pastSentenceEnd 5.2 5" "pastSentenceEnd 4.95 5"
  "pastSentenceEnd 5 5" "pastSentenceEnd 4.9 5" "\<not> pastSentenceEnd 2 5"
  by (simp_all add: ieee_eval)

lemma past_end_10:
  "pastSentenceEnd 9.95 10" "\<not> pastSentenceEnd 0.2 10" "\<not> pastSentenceEnd 5 10"
  by (simp_all add: ieee_eval)

lemmas past_samples = past_end_1 [simplified] past_end_5 [simplified] past_end_10 [simplified]

subsection \<open>The locate step\<close>

lemma findFrom_range:
  "findFrom i xs t = -1 \<or> (i \<le> findFrom i xs t \<and> findFrom i xs t < i + int (length xs))"
  by (induction i xs t rule: findFrom.induct) auto

lemma foundIndex_range: "-1 \<le> foundIndex xs t \<and> foundIndex xs t < int (length xs)"
  using findFrom_range [of 0 xs t] by (auto simp: foundIndex_def)

lemma findFrom_first:
  assumes "k < length xs" and "start (xs ! k) \<le> t \<and> t \<le> endT (xs ! k)"
    and "\<forall>j<k. \<not> (start (xs ! j) \<le> t \<and> t \<le> endT (xs ! j))"
  shows "findFrom i xs t = i + int k"
  using assms
proof (induction xs arbitrary: i k)
  case Nil
  then show ?case by simp
next
  case (Cons x xs)
  show ?case
  proof (cases k)
    case 0
    with Cons.prems show ?thesis by simp
  next
    case (Suc m)
    have hd: "\<not> (start x \<le> t \<and> t \<le> endT x)"
      using Cons.prems(3) Suc by force
    have m: "m < length xs" using Cons.prems(1) Suc by simp
    have here: "start (xs ! m) \<le> t \<and> t \<le> endT (xs ! m)"
      using Cons.prems(2) Suc by simp
    have before: "\<forall>j<m. \<not> (start (xs ! j) \<le> t \<and> t \<le> endT (xs ! j))"
    proof (intro allI impI)
      fix j assume "j < m"
      then have "Suc j < k" using Suc by simp
      with Cons.prems(3) have "\<not> (start ((x # xs) ! Suc j) \<le> t \<and> t \<le> endT ((x # xs) ! Suc j))"
        by blast
      then show "\<not> (start (xs ! j) \<le> t \<and> t \<le> endT (xs ! j))" by simp
    qed
    have "findFrom (i + 1) xs t = (i + 1) + int m"
      by (rule Cons.IH [OF m here before])
    with hd Suc show ?thesis by auto
  qed
qed

lemma findFrom_none:
  assumes "\<forall>j<length xs. \<not> (start (xs ! j) \<le> t \<and> t \<le> endT (xs ! j))"
  shows "findFrom i xs t = -1"
  using assms
proof (induction xs arbitrary: i)
  case Nil
  then show ?case by simp
next
  case (Cons x xs)
  have hd: "\<not> (start x \<le> t \<and> t \<le> endT x)" using Cons.prems by force
  have "\<forall>j<length xs. \<not> (start (xs ! j) \<le> t \<and> t \<le> endT (xs ! j))"
  proof (intro allI impI)
    fix j assume "j < length xs"
    then have "Suc j < length (x # xs)" by simp
    with Cons.prems have "\<not> (start ((x # xs) ! Suc j) \<le> t \<and> t \<le> endT ((x # xs) ! Suc j))"
      by blast
    then show "\<not> (start (xs ! j) \<le> t \<and> t \<le> endT (xs ! j))" by simp
  qed
  then have "findFrom (i + 1) xs t = -1" by (rule Cons.IH)
  with hd show ?case by auto
qed

text \<open>
  C6, as stated, fails for a list with an overlap: in \<open>overlapping\<close> sentence 1 ends
  at 5 where sentence 2 starts, but a sample at 5 resolves to sentence 0, whose interval
  [0, 10] also contains 5 and comes first.
\<close>
theorem boundary_overlap_counterexample:
  "endT (overlapping ! 1) = start (overlapping ! 2)
   \<and> foundIndex overlapping (endT (overlapping ! 1)) = 0
   \<and> foundIndex overlapping (endT (overlapping ! 1)) \<noteq> 1"
  by (simp add: overlapping_def foundIndex_def)

text \<open>
  C6, amended. The locate step selects the first sentence in list order whose interval
  [start, end] contains the sampled time, and \<open>-1\<close> when none does. Hence, when sentence
  \<open>i\<close> ends exactly where sentence \<open>i + 1\<close> starts, sentence \<open>i\<close> has start \<open>\<le>\<close> end
  and no earlier sentence contains that time, a sample at that time resolves to \<open>i\<close> and
  not to \<open>i + 1\<close>. \<open>updateCurrentSentence\<close> stores the index so found.
\<close>
theorem first_containing:
  "(\<forall>k<length xs. (start (xs ! k) \<le> t \<and> t \<le> endT (xs ! k))
        \<and> (\<forall>j<k. \<not> (start (xs ! j) \<le> t \<and> t \<le> endT (xs ! j)))
      \<longrightarrow> foundIndex xs t = int k)
   \<and> ((\<forall>j<length xs. \<not> (start (xs ! j) \<le> t \<and> t \<le> endT (xs ! j))) \<longrightarrow> foundIndex xs t = -1)
   \<and> (\<forall>i. i + 1 < length xs \<and> endT (xs ! i) = start (xs ! (i + 1))
          \<and> start (xs ! i) \<le> endT (xs ! i)
          \<and> (\<forall>j<i. \<not> (start (xs ! j) \<le> endT (xs ! i) \<and> endT (xs ! i) \<le> endT (xs ! j)))
        \<longrightarrow> foundIndex xs (endT (xs ! i)) = int i \<and> foundIndex xs (endT (xs ! i)) \<noteq> int (i + 1))
   \<and> currentSentenceIndex (updateCurrentSentence s (Some t) s) = foundIndex (sentences s) t"
proof (intro conjI allI impI)
  fix k assume "k < length xs" and "(start (xs ! k) \<le> t \<and> t \<le> endT (xs ! k))
        \<and> (\<forall>j<k. \<not> (start (xs ! j) \<le> t \<and> t \<le> endT (xs ! j)))"
  then show "foundIndex xs t = int k"
    using findFrom_first [of k xs t 0] by (simp add: foundIndex_def)
next
  assume "\<forall>j<length xs. \<not> (start (xs ! j) \<le> t \<and> t \<le> endT (xs ! j))"
  then show "foundIndex xs t = -1"
    using findFrom_none [of xs t 0] by (simp add: foundIndex_def)
next
  fix i
  assume a: "i + 1 < length xs \<and> endT (xs ! i) = start (xs ! (i + 1))
          \<and> start (xs ! i) \<le> endT (xs ! i)
          \<and> (\<forall>j<i. \<not> (start (xs ! j) \<le> endT (xs ! i) \<and> endT (xs ! i) \<le> endT (xs ! j)))"
  then have "findFrom 0 xs (endT (xs ! i)) = 0 + int i"
    by (intro findFrom_first) auto
  then show "foundIndex xs (endT (xs ! i)) = int i" by (simp add: foundIndex_def)
  then show "foundIndex xs (endT (xs ! i)) \<noteq> int (i + 1)" by simp
next
  show "currentSentenceIndex (updateCurrentSentence s (Some t) s) = foundIndex (sentences s) t"
    by (simp add: updateCurrentSentence_def)
qed

theorem first_containing_witness:
  "(0::nat) + 1 < length touching \<and> endT (touching ! 0) = start (touching ! (0 + 1))
   \<and> endT (touching ! 0) = 5
   \<and> start (touching ! 0) \<le> endT (touching ! 0)
   \<and> foundIndex touching 5 = 0 \<and> foundIndex touching 5 \<noteq> 1
   \<and> foundIndex touching 11 = -1
   \<and> currentSentenceIndex (updateCurrentSentence (loaded touching) (Some 5) (loaded touching)) = 0"
proof -
  have e: "endT (touching ! 0) = 5" by (simp add: touching_def)
  have h: "(0::nat) + 1 < length touching \<and> endT (touching ! 0) = start (touching ! (0 + 1))
          \<and> start (touching ! 0) \<le> endT (touching ! 0)
          \<and> (\<forall>j<(0::nat). \<not> (start (touching ! j) \<le> endT (touching ! 0) \<and> endT (touching ! 0) \<le> endT (touching ! j)))"
    by (simp add: touching_def)
  have n: "\<forall>j<length touching. \<not> (start (touching ! j) \<le> 11 \<and> 11 \<le> endT (touching ! j))"
    by (simp add: touching_def less_Suc_eq)
  from first_containing [of touching 11 "loaded touching"] n
  have a: "foundIndex touching 11 = -1" by blast
  from first_containing [of touching 5 "loaded touching"] h
  have b: "foundIndex touching (endT (touching ! 0)) = int 0 \<and> foundIndex touching (endT (touching ! 0)) \<noteq> int (0 + 1)"
    by blast
  from first_containing [of touching 5 "loaded touching"]
  have c: "currentSentenceIndex (updateCurrentSentence (loaded touching) (Some 5) (loaded touching)) = foundIndex (sentences (loaded touching)) 5"
    by blast
  have d: "sentences (loaded touching) = touching" by (simp add: loaded_def)
  show ?thesis using a b c d e h by simp
qed

subsection \<open>User commands and end of stream\<close>

text \<open>
  C10. \<open>handleRepeatCountChange\<close> changes the field \<open>repeatCount\<close> and nothing else:
  putting the old count back gives the old state. In particular \<open>isRepeating\<close>,
  \<open>currentRepeat\<close>, \<open>repeatSentenceIndex\<close> and \<open>currentSentenceIndex\<close> are kept, so a
  change of the count in the middle of a cycle neither resets nor cancels the cycle, and
  no command is sent to the audio element.
\<close>
theorem repeat_count_change_frame:
  "(handleRepeatCountChange s n)\<lparr> repeatCount := repeatCount s \<rparr> = s
   \<and> isRepeating (handleRepeatCountChange s n) = isRepeating s
   \<and> currentRepeat (handleRepeatCountChange s n) = currentRepeat s
   \<and> repeatSentenceIndex (handleRepeatCountChange s n) = repeatSentenceIndex s
   \<and> currentSentenceIndex (handleRepeatCountChange s n) = currentSentenceIndex s
   \<and> dispatch s audioRef (RepeatCountChange n) = Inr (handleRepeatCountChange s n, [])"
  by (simp add: handleRepeatCountChange_def dispatch_def)

text \<open>
  C4, as stated, fails: a count below 1 is stored as it is. After
  \<open>handleRepeatCountChange\<close> with 0 the stored count is 0, not 1.
\<close>
theorem repeat_count_not_clamped: "repeatCount (handleRepeatCountChange (loaded touching) 0) = 0
   \<and> repeatCount (handleRepeatCountChange (loaded touching) 0) \<noteq> 1
   \<and> \<not> 1 \<le> repeatCount (handleRepeatCountChange (loaded touching) 0)"
  by (simp add: handleRepeatCountChange_def)

text \<open>
  C4, amended. \<open>handleRepeatCountChange\<close> stores its argument unchanged, for every
  argument; there is no clamping. The stored count is at least 1 whenever the argument
  is, and so for each of the values 1, 2, 3, 5 and 10 that the selector offers.
\<close>
theorem repeat_count_stored:
  "repeatCount (handleRepeatCountChange s n) = n
   \<and> (1 \<le> n \<longrightarrow> 1 \<le> repeatCount (handleRepeatCountChange s n))
   \<and> (n \<in> {1, 2, 3, 5, 10} \<longrightarrow> 1 \<le> repeatCount (handleRepeatCountChange s n))"
  by (auto simp add: handleRepeatCountChange_def)

theorem repeat_count_stored_witness:
  "(1::int) \<le> 5 \<and> (5::int) \<in> {1, 2, 3, 5, 10}
   \<and> repeatCount (handleRepeatCountChange (loaded touching) 5) = 5
   \<and> 1 \<le> repeatCount (handleRepeatCountChange (loaded touching) 5)"
  using repeat_count_stored [of "loaded touching" 5] by simp

text \<open>
  C5. With the audio element mounted, \<open>jumpToSentence\<close> at an index \<open>i\<close> of the
  sentence list, from any state (also in the middle of a cycle), sets
  \<open>currentSentenceIndex\<close> to \<open>i\<close>, sets the element's time to the start of sentence
  \<open>i\<close>, and resets the cycle: \<open>isRepeating = False\<close>, \<open>currentRepeat = 0\<close>,
  \<open>repeatSentenceIndex = -1\<close>. No other field changes.
\<close>
theorem jump_in_range:
  assumes "audioRef = Some a" and "0 \<le> i" and "i < int (length (sentences s))"
  shows "jumpToSentence s audioRef i =
           (s\<lparr> currentSentenceIndex := i, currentRepeat := 0, isRepeating := False,
               repeatSentenceIndex := -1 \<rparr>,
            [SetCurrentTime (start (sentences s ! nat i))])
         \<and> currentSentenceIndex (fst (jumpToSentence s audioRef i)) = i
         \<and> \<not> isRepeating (fst (jumpToSentence s audioRef i))
         \<and> currentRepeat (fst (jumpToSentence s audioRef i)) = 0"
  using assms by (simp add: jumpToSentence_def sentenceAt_def)

theorem jump_in_range_witness:
  "isRepeating midCycle \<and> currentRepeat midCycle = 1 \<and> repeatCount midCycle = 3
   \<and> Some (2::real) = Some 2 \<and> (0::int) \<le> 1 \<and> 1 < int (length (sentences midCycle))
   \<and> snd (jumpToSentence midCycle (Some 2) 1) = [SetCurrentTime 5]
   \<and> currentSentenceIndex (fst (jumpToSentence midCycle (Some 2) 1)) = 1
   \<and> \<not> isRepeating (fst (jumpToSentence midCycle (Some 2) 1))
   \<and> currentRepeat (fst (jumpToSentence midCycle (Some 2) 1)) = 0"
  using jump_in_range [of "Some 2" 2 1 midCycle]
  by (simp add: midCycle_def loaded_def initialState_def touching_def)

text \<open>
  C8. \<open>jumpToSentence\<close> at an index outside the sentence list (negative, or at least the
  length of the list, hence every index when the list is empty) changes no field of the
  state and sends no command to the audio element.
\<close>
theorem jump_out_of_range:
  assumes "i < 0 \<or> int (length (sentences s)) \<le> i"
  shows "jumpToSentence s audioRef i = (s, [])"
  using assms by (auto simp add: jumpToSentence_def sentenceAt_def split: option.splits)

theorem jump_out_of_range_witness:
  "((2::int) < 0 \<or> int (length (sentences midCycle)) \<le> 2)
   \<and> jumpToSentence midCycle (Some 2) 2 = (midCycle, [])
   \<and> jumpToSentence midCycle (Some 2) (-1) = (midCycle, [])
   \<and> jumpToSentence (loaded []) (Some 0) 0 = (loaded [], [])"
  using jump_out_of_range [of 2 midCycle "Some 2"] jump_out_of_range [of "-1" midCycle "Some 2"]
    jump_out_of_range [of 0 "loaded []" "Some 0"]
  by (simp add: midCycle_def loaded_def initialState_def touching_def)

text \<open>
  C9. When the audio element reports \<open>ended\<close> and \<open>repeatMode\<close> is \<open>all\<close>,
  \<open>handleEnded\<close> sets the element's time to 0 and then calls \<open>play\<close>; for every other
  mode it does neither (it only clears the interval).
\<close>
theorem ended_repeat_all:
  "(repeatMode s = RepeatAll \<longrightarrow> snd (handleEnded s) = [ClearInterval, SetCurrentTime 0, Play])
   \<and> (repeatMode s \<noteq> RepeatAll \<longrightarrow> snd (handleEnded s) = [ClearInterval] \<and> Play \<notin> set (snd (handleEnded s)))
   \<and> (audioRef \<noteq> None \<and> sentences s \<noteq> [] \<longrightarrow> dispatch s audioRef EndedEvent = Inr (handleEnded s))"
  by (auto simp add: handleEnded_def dispatch_def)

theorem ended_repeat_all_witness:
  "repeatMode ((loaded touching)\<lparr> repeatMode := RepeatAll \<rparr>) = RepeatAll
   \<and> snd (handleEnded ((loaded touching)\<lparr> repeatMode := RepeatAll \<rparr>)) = [ClearInterval, SetCurrentTime 0, Play]
   \<and> repeatMode (loaded touching) \<noteq> RepeatAll
   \<and> snd (handleEnded (loaded touching)) = [ClearInterval]
   \<and> Some (10::real) \<noteq> None \<and> sentences (loaded touching) \<noteq> []
   \<and> dispatch (loaded touching) (Some 10) EndedEvent = Inr (handleEnded (loaded touching))"
  using ended_repeat_all [of "(loaded touching)\<lparr> repeatMode := RepeatAll \<rparr>" "Some 10"]
    ended_repeat_all [of "loaded touching" "Some 10"]
  by (simp add: loaded_def initialState_def touching_def)

subsection \<open>The repeat cycle\<close>

lemma inv_timeupdate:
  assumes "cycleInv s"
  shows "\<exists>s' c. handleTimeUpdate s (Some t) = Inr (s', c) \<and> cycleInv s'"
  using assms foundIndex_range [of "sentences s" t]
  by (auto simp: handleTimeUpdate_def handleRepeatLogic_def updateCurrentSentence_def
       sentenceAt_def alreadyRepeating_def resetOnMove_def cycleInv_def Let_def split: if_splits)

lemma inv_step:
  assumes "cycleInv s" and "allowed s ev"
  shows "\<exists>s' c. dispatch s a ev = Inr (s', c) \<and> cycleInv s'"
proof (cases ev)
  case TimeUpdate
  then show ?thesis
    using inv_timeupdate [OF assms(1)] assms(1) by (cases a) (auto simp: dispatch_def)
next
  case IntervalTick
  then show ?thesis
    using assms(1) foundIndex_range [of "sentences s"]
    by (cases a) (auto simp: dispatch_def updateCurrentSentence_def cycleInv_def)
next
  case PlayEvent
  then show ?thesis using assms(1) by (auto simp: dispatch_def handlePlay_def cycleInv_def)
next
  case PauseEvent
  then show ?thesis using assms(1) by (auto simp: dispatch_def handlePause_def cycleInv_def)
next
  case EndedEvent
  then show ?thesis using assms(1) by (auto simp: dispatch_def handleEnded_def cycleInv_def)
next
  case (JumpTo i)
  then show ?thesis
    using assms(1)
    by (auto simp: dispatch_def jumpToSentence_def sentenceAt_def cycleInv_def split: option.splits)
next
  case (RepeatModeChange m)
  then show ?thesis
    using assms(1) by (auto simp: dispatch_def handleRepeatModeChange_def cycleInv_def)
next
  case (RepeatCountChange n)
  then show ?thesis
    using assms by (auto simp: dispatch_def handleRepeatCountChange_def cycleInv_def allowed_def)
qed

lemma reachable_cycleInv: "reachable s \<Longrightarrow> cycleInv s"
proof (induction rule: reachable.induct)
  case (reach_start s)
  then show ?case by (auto simp: sessionStart_def cycleInv_def)
next
  case (reach_step s ev audioRef s' cmds)
  then show ?case using inv_step [of s ev audioRef] by auto
qed

text \<open>
  C2, as stated, fails in two ways. (1) After a sample at 0.5 (sentence 0 active) a sample
  at 1.05, in the gap after sentence 0, starts a cycle on sentence 0 while the locate
  step sets \<open>currentSentenceIndex\<close> to \<open>-1\<close>: \<open>isRepeating\<close> holds and no sentence is
  active. (2) With two repeats counted, lowering the repeat count to 1 leaves
  \<open>currentRepeat = 2\<close> above \<open>repeatCount = 1\<close> while \<open>isRepeating\<close> holds.
\<close>
theorem cycling_invariant_counterexample:
  "sessionStart (loaded gapped)
   \<and> run (loaded gapped) [(None, RepeatModeChange RepeatSentence), (Some 0.5, TimeUpdate),
        (Some 1.05, TimeUpdate)] = Inr cycleInGap
   \<and> \<not> specInvariant cycleInGap
   \<and> run (loaded gapped) [(None, RepeatModeChange RepeatSentence), (Some 0.5, TimeUpdate),
        (Some 0.95, TimeUpdate), (Some 0.95, TimeUpdate), (None, RepeatCountChange 1)]
       = Inr countLowered
   \<and> \<not> specInvariant countLowered"
  by (simp add: eval_defs past_samples sessionStart_def specInvariant_def cycleInGap_def
        countLowered_def)

text \<open>
  C2, amended. In every state reachable from a session start by position samples
  (\<open>timeupdate\<close> and interval ticks), \<open>jumpToSentence\<close>, repeat-mode changes, play, pause
  and ended notifications, and by repeat-count changes to a value that is at least 1 and
  not below \<open>currentRepeat\<close>: if \<open>isRepeating\<close> then \<open>repeatSentenceIndex\<close>, the sentence
  the cycle is pinned to, is an index of the sentence list and \<open>currentRepeat\<close> lies in
  [1, \<open>repeatCount\<close>]; otherwise \<open>currentRepeat = 0\<close> and \<open>repeatSentenceIndex = -1\<close>.
  \<open>currentSentenceIndex\<close> is \<open>-1\<close> or an index of the list, and no operation throws.
\<close>
theorem cycling_invariant:
  assumes "reachable s"
  shows "(isRepeating s \<longrightarrow>
            0 \<le> repeatSentenceIndex s \<and> repeatSentenceIndex s < int (length (sentences s))
            \<and> 1 \<le> currentRepeat s \<and> currentRepeat s \<le> repeatCount s)
         \<and> (\<not> isRepeating s \<longrightarrow> currentRepeat s = 0 \<and> repeatSentenceIndex s = -1)
         \<and> -1 \<le> currentSentenceIndex s \<and> currentSentenceIndex s < int (length (sentences s))
         \<and> (\<forall>audioRef ev. allowed s ev \<longrightarrow> (\<exists>s' cmds. dispatch s audioRef ev = Inr (s', cmds)))"
proof -
  have inv: "cycleInv s" using assms by (rule reachable_cycleInv)
  have "\<forall>audioRef ev. allowed s ev \<longrightarrow> (\<exists>s' cmds. dispatch s audioRef ev = Inr (s', cmds))"
    using inv_step [OF inv] by blast
  with inv show ?thesis by (auto simp: cycleInv_def split: if_splits)
qed

theorem cycling_invariant_witness:
  "reachable cycleStarted \<and> isRepeating cycleStarted
   \<and> repeatSentenceIndex cycleStarted = 0 \<and> length (sentences cycleStarted) = 2
   \<and> currentRepeat cycleStarted = 1 \<and> repeatCount cycleStarted = 3
   \<and> allowed cycleStarted TimeUpdate
   \<and> (\<exists>s' cmds. dispatch cycleStarted (Some 0.95) TimeUpdate = Inr (s', cmds))"
proof -
  have r0: "reachable (loaded gapped)"
    by (rule reach_start) (simp add: sessionStart_def loaded_def initialState_def)
  have r1: "reachable (sentenceMode gapped)"
    by (rule reach_step [OF r0, of "RepeatModeChange RepeatSentence" None _ "[]"])
       (simp_all add: allowed_def eval_defs)
  have r2: "reachable ((sentenceMode gapped)\<lparr> currentTime := 0.5, currentSentenceIndex := 0 \<rparr>)"
    by (rule reach_step [OF r1, of TimeUpdate "Some 0.5" _ "[]"])
       (simp_all add: allowed_def eval_defs past_samples)
  have r3: "reachable cycleStarted"
    by (rule reach_step [OF r2, of TimeUpdate "Some 0.95" _
          "[SetTimeout 100 (SetCurrentTime 0)]"])
       (simp_all add: allowed_def eval_defs past_samples cycleStarted_def)
  have a: "allowed cycleStarted TimeUpdate" by (simp add: allowed_def)
  show ?thesis
    using cycling_invariant [OF r3] r3 a
    by (simp add: cycleStarted_def eval_defs past_samples)
qed








section \<open>Properties of the aligner\<close>

subsection \<open>Strings\<close>

lemma indexOfAt_bounds:
  "indexOfAt k xs pat = Some r \<Longrightarrow> pat \<noteq> [] \<Longrightarrow> k \<le> r \<and> r + length pat \<le> k + length xs"
proof (induction xs arbitrary: k)
  case Nil
  then show ?case by simp
next
  case (Cons c cs)
  show ?case
  proof (cases "take (length pat) (c # cs) = pat")
    case True
    then have "length (take (length pat) (c # cs)) = length pat" by simp
    then have "length pat \<le> length (c # cs)"
      unfolding length_take by (simp add: min_def split: if_splits)
    with True Cons.prems show ?thesis by simp
  next
    case False
    with Cons.prems have "indexOfAt (k + 1) cs pat = Some r" by simp
    from Cons.IH [OF this Cons.prems(2)] show ?thesis by simp
  qed
qed

lemma indexOf_bounds:
  assumes "indexOf s pat pos = Some r" and "pat \<noteq> []"
  shows "pos \<le> r \<and> r + length pat \<le> length s"
proof -
  have a: "indexOfAt (min pos (length s)) (drop pos s) pat = Some r"
    using assms(1) by (simp add: indexOf_def)
  have "pos < length s"
  proof (rule ccontr)
    assume "\<not> pos < length s"
    then have "drop pos s = []" by simp
    with a assms(2) show False by simp
  qed
  with indexOfAt_bounds [OF a assms(2)] show ?thesis by simp
qed

lemma indexOfAt_None_iff:
  "indexOfAt k xs pat = None \<longleftrightarrow> (\<forall>j\<le>length xs. take (length pat) (drop j xs) \<noteq> pat)"
proof (induction xs arbitrary: k)
  case Nil
  then show ?case by auto
next
  case (Cons c cs)
  show ?case
  proof (cases "take (length pat) (c # cs) = pat")
    case True
    then have "\<not> (\<forall>j\<le>length (c # cs). take (length pat) (drop j (c # cs)) \<noteq> pat)"
      by (metis drop0 le0)
    with True show ?thesis by simp
  next
    case False
    have "(\<forall>j\<le>length (c # cs). take (length pat) (drop j (c # cs)) \<noteq> pat)
          \<longleftrightarrow> (\<forall>j\<le>length cs. take (length pat) (drop j cs) \<noteq> pat)"
    proof
      assume l: "\<forall>j\<le>length (c # cs). take (length pat) (drop j (c # cs)) \<noteq> pat"
      show "\<forall>j\<le>length cs. take (length pat) (drop j cs) \<noteq> pat"
      proof (intro allI impI)
        fix j assume "j \<le> length cs"
        then have "Suc j \<le> length (c # cs)" by simp
        with l have "take (length pat) (drop (Suc j) (c # cs)) \<noteq> pat" by blast
        then show "take (length pat) (drop j cs) \<noteq> pat" by simp
      qed
    next
      assume r: "\<forall>j\<le>length cs. take (length pat) (drop j cs) \<noteq> pat"
      show "\<forall>j\<le>length (c # cs). take (length pat) (drop j (c # cs)) \<noteq> pat"
      proof (intro allI impI)
        fix j assume "j \<le> length (c # cs)"
        show "take (length pat) (drop j (c # cs)) \<noteq> pat"
        proof (cases j)
          case 0
          with False show ?thesis by simp
        next
          case (Suc m)
          with \<open>j \<le> length (c # cs)\<close> have "m \<le> length cs" by simp
          with r Suc show ?thesis by simp
        qed
      qed
    qed
    with False Cons.IH [of "k + 1"] show ?thesis by simp
  qed
qed

lemma indexOf_None_iff:
  "indexOf s pat pos = None \<longleftrightarrow> (\<forall>k. pos \<le> k \<and> k \<le> max pos (length s) \<longrightarrow> take (length pat) (drop k s) \<noteq> pat)"
proof -
  have "indexOf s pat pos = None \<longleftrightarrow> (\<forall>j\<le>length (drop pos s). take (length pat) (drop j (drop pos s)) \<noteq> pat)"
    by (simp add: indexOf_def indexOfAt_None_iff)
  also have "\<dots> \<longleftrightarrow> (\<forall>k. pos \<le> k \<and> k \<le> max pos (length s) \<longrightarrow> take (length pat) (drop k s) \<noteq> pat)"
  proof
    assume l: "\<forall>j\<le>length (drop pos s). take (length pat) (drop j (drop pos s)) \<noteq> pat"
    show "\<forall>k. pos \<le> k \<and> k \<le> max pos (length s) \<longrightarrow> take (length pat) (drop k s) \<noteq> pat"
    proof (intro allI impI)
      fix k assume k: "pos \<le> k \<and> k \<le> max pos (length s)"
      then have "k - pos \<le> length (drop pos s)" by auto
      with l have "take (length pat) (drop (k - pos) (drop pos s)) \<noteq> pat" by blast
      with k show "take (length pat) (drop k s) \<noteq> pat" by simp
    qed
  next
    assume r: "\<forall>k. pos \<le> k \<and> k \<le> max pos (length s) \<longrightarrow> take (length pat) (drop k s) \<noteq> pat"
    show "\<forall>j\<le>length (drop pos s). take (length pat) (drop j (drop pos s)) \<noteq> pat"
    proof (intro allI impI)
      fix j assume "j \<le> length (drop pos s)"
      then have "pos \<le> j + pos \<and> j + pos \<le> max pos (length s)" by auto
      with r have "take (length pat) (drop (j + pos) s) \<noteq> pat" by blast
      then show "take (length pat) (drop j (drop pos s)) \<noteq> pat" by (simp add: add.commute)
    qed
  qed
  finally show ?thesis .
qed

lemma last_dropWhile: "dropWhile P xs \<noteq> [] \<Longrightarrow> last (dropWhile P xs) = last xs"
  by (induction xs) auto

lemma trim_fixed:
  assumes "xs = [] \<or> (\<not> isSpace (hd xs) \<and> \<not> isSpace (last xs))"
  shows "trim xs = xs"
proof (cases "xs = []")
  case True
  then show ?thesis by (simp add: trim_def)
next
  case False
  with assms have h: "\<not> isSpace (hd xs)" and l: "\<not> isSpace (last xs)" by auto
  have a: "dropWhile isSpace xs = xs" using h False by (simp add: dropWhile_eq_self_iff)
  have "hd (rev xs) = last xs" using False by (simp add: hd_rev)
  then have b: "dropWhile isSpace (rev xs) = rev xs" using l by (simp add: dropWhile_eq_self_iff)
  show ?thesis by (simp add: trim_def a b)
qed

lemma trim_ends:
  "trim s = [] \<or> (\<not> isSpace (hd (trim s)) \<and> \<not> isSpace (last (trim s)))"
proof (cases "trim s = []")
  case True
  then show ?thesis by simp
next
  case False
  let ?u = "dropWhile isSpace s"
  let ?v = "dropWhile isSpace (rev ?u)"
  have t: "trim s = rev ?v" by (simp add: trim_def)
  with False have v: "?v \<noteq> []" by simp
  have u: "?u \<noteq> []"
  proof
    assume "?u = []"
    then have "?v = []" by (simp only: rev.simps dropWhile.simps)
    with v show False by contradiction
  qed
  have "last (trim s) = hd ?v" using v t by (simp add: last_rev)
  moreover have "\<not> isSpace (hd ?v)" using v by (rule hd_dropWhile)
  moreover have "hd (trim s) = last ?v" using v t by (simp add: hd_rev)
  moreover have "last ?v = last (rev ?u)" using v by (rule last_dropWhile)
  moreover have "last (rev ?u) = hd ?u" using u by (simp add: last_rev)
  moreover have "\<not> isSpace (hd ?u)" using u by (rule hd_dropWhile)
  ultimately show ?thesis by simp
qed

lemma trim_trim: "trim (trim s) = trim s"
  by (rule trim_fixed) (rule trim_ends)

lemma tokenized_trimmed:
  assumes "x \<in> set (tokenizeSentences t)"
  shows "trim x = x \<and> x \<noteq> []"
  using assms by (auto simp: tokenizeSentences_def Let_def trim_trim)

lemma indexOf_None_occurs:
  assumes "pat \<noteq> []"
  shows "indexOf s pat pos = None \<longleftrightarrow> \<not> occursFrom s pat pos"
proof (cases "pos \<le> length s")
  case True
  then have "max pos (length s) = length s" by simp
  then show ?thesis by (auto simp: indexOf_None_iff occursFrom_def)
next
  case False
  then have "drop pos s = []" by simp
  then have "indexOf s pat pos = None" using assms by (simp add: indexOf_def)
  moreover have "\<not> occursFrom s pat pos" using False by (simp add: occursFrom_def)
  ultimately show ?thesis by simp
qed

subsection \<open>The character to word mapping\<close>

lemma c2wFrom_bounds:
  "j < length (c2wFrom k ws) \<Longrightarrow> k \<le> c2wFrom k ws ! j \<and> c2wFrom k ws ! j < k + length ws"
proof (induction ws arbitrary: k j)
  case Nil
  then show ?case by simp
next
  case (Cons w ws)
  show ?case
  proof (cases "j < length (word w)")
    case True
    then show ?thesis by (simp add: nth_append)
  next
    case False
    then have "j - length (word w) < length (c2wFrom (k + 1) ws)"
      using Cons.prems by simp
    from Cons.IH [OF this] False show ?thesis by (simp add: nth_append)
  qed
qed

lemma c2wFrom_sorted: "sorted (c2wFrom k ws)"
proof (induction ws arbitrary: k)
  case Nil
  then show ?case by simp
next
  case (Cons w ws)
  have "\<forall>y \<in> set (c2wFrom (k + 1) ws). k \<le> y"
  proof
    fix y assume "y \<in> set (c2wFrom (k + 1) ws)"
    then obtain j where "j < length (c2wFrom (k + 1) ws)" and "c2wFrom (k + 1) ws ! j = y"
      by (auto simp: in_set_conv_nth)
    with c2wFrom_bounds [of j "k + 1" ws] show "k \<le> y" by simp
  qed
  with Cons.IH [of "k + 1"] show ?case by (auto simp: sorted_append)
qed

lemma orZero_Some: "orZero (Some x) = x"
  by (simp add: orZero_def)

lemma c2w_time:
  assumes "a < length (buildCharToWordMapping ws)"
  shows "orZero (map_option f (wordAt ws (buildCharToWordMapping ws ! a)))
           = f (ws ! (buildCharToWordMapping ws ! a))"
  using c2wFrom_bounds [of a 0 ws] assms
  by (simp add: buildCharToWordMapping_def wordAt_def orZero_Some)

lemma word_time_mono:
  assumes "sorted (map f ws)" and "a \<le> b" and "b < length (buildCharToWordMapping ws)"
  shows "f (ws ! (buildCharToWordMapping ws ! a)) \<le> (f (ws ! (buildCharToWordMapping ws ! b)) :: real)"
proof -
  let ?m = "buildCharToWordMapping ws"
  have s: "sorted ?m" by (simp add: buildCharToWordMapping_def c2wFrom_sorted)
  have ab: "?m ! a \<le> ?m ! b" using s assms(2,3) by (simp add: sorted_nth_mono)
  have bl: "?m ! b < length ws"
    using c2wFrom_bounds [of b 0 ws] assms(3) by (simp add: buildCharToWordMapping_def)
  have "map f ws ! (?m ! a) \<le> map f ws ! (?m ! b)"
    by (rule sorted_nth_mono [OF assms(1) ab]) (simp add: bl)
  with ab bl show ?thesis by simp
qed

subsection \<open>The segment loop\<close>

lemma segmentLoop_append:
  "segmentLoop ft c2w ws p i (xs @ ys) =
     segmentLoop ft c2w ws p i xs @ segmentLoop ft c2w ws (cursorAfter ft c2w p xs) (i + length xs) ys"
  by (induction xs arbitrary: p i) (auto simp: Let_def split: option.splits)

lemma segmentLoop_ids:
  "seg \<in> set (segmentLoop ft c2w ws p i xs) \<Longrightarrow> i < segId seg \<and> segId seg \<le> i + length xs"
  by (induction xs arbitrary: p i) (fastforce simp: Let_def split: option.splits if_splits)+

lemma segmentLoop_Cons_cases:
  obtains (skip) "segmentLoop ft c2w ws p i (s # rest) = segmentLoop ft c2w ws p (i + 1) rest"
  | (emit) a where "trim s \<noteq> []" and "indexOf ft (trim s) p = Some a"
      and "a < length c2w" and "a + length (trim s) - 1 < length c2w"
      and "segmentLoop ft c2w ws p i (s # rest) =
             \<lparr> segId = i + 1, segText = trim s,
               startTime = orZero (map_option wstart (wordAt ws (c2w ! a))),
               endTime = orZero (map_option wend (wordAt ws (c2w ! (a + length (trim s) - 1)))) \<rparr>
             # segmentLoop ft c2w ws (a + length (trim s)) (i + 1) rest"
proof (cases "trim s = []")
  case True
  then show ?thesis using skip by simp
next
  case ne: False
  show ?thesis
  proof (cases "indexOf ft (trim s) p")
    case None
    with ne show ?thesis using skip by simp
  next
    case (Some a)
    show ?thesis
    proof (cases "a \<ge> length c2w \<or> a + length (trim s) - 1 \<ge> length c2w")
      case True
      with ne Some show ?thesis using skip by (simp add: Let_def)
    next
      case False
      with ne Some show ?thesis using emit [of a] by (simp add: Let_def)
    qed
  qed
qed

lemma segmentLoop_spans:
  assumes "seg \<in> set (segmentLoop ft (buildCharToWordMapping ws) ws p i xs)"
  shows "\<exists>a b. p \<le> a \<and> a \<le> b \<and> b < length (buildCharToWordMapping ws)
           \<and> startTime seg = wstart (ws ! (buildCharToWordMapping ws ! a))
           \<and> endTime seg = wend (ws ! (buildCharToWordMapping ws ! b))"
  using assms
proof (induction xs arbitrary: p i)
  case Nil
  then show ?case by simp
next
  case (Cons s rest)
  let ?m = "buildCharToWordMapping ws"
  show ?case
  proof (cases rule: segmentLoop_Cons_cases [of ft ?m ws p i s rest])
    case skip
    with Cons.prems have "seg \<in> set (segmentLoop ft ?m ws p (i + 1) rest)" by simp
    from Cons.IH [OF this] show ?thesis .
  next
    case (emit a)
    have pa: "p \<le> a" using indexOf_bounds [OF emit(2) emit(1)] by simp
    have len: "0 < length (trim s)" using emit(1) by simp
    show ?thesis
    proof (cases "seg \<in> set (segmentLoop ft ?m ws (a + length (trim s)) (i + 1) rest)")
      case True
      from Cons.IH [OF this] obtain a' b' where
        "a + length (trim s) \<le> a'" "a' \<le> b'" "b' < length ?m"
        "startTime seg = wstart (ws ! (?m ! a'))" "endTime seg = wend (ws ! (?m ! b'))"
        by blast
      with pa show ?thesis by (rule_tac x = a' in exI, rule_tac x = b' in exI) simp
    next
      case False
      with Cons.prems emit(5) have
        seg: "seg = \<lparr> segId = i + 1, segText = trim s,
               startTime = orZero (map_option wstart (wordAt ws (?m ! a))),
               endTime = orZero (map_option wend (wordAt ws (?m ! (a + length (trim s) - 1)))) \<rparr>"
        by simp
      have st: "startTime seg = wstart (ws ! (?m ! a))"
        using seg c2w_time [OF emit(3), of wstart] by simp
      have en: "endTime seg = wend (ws ! (?m ! (a + length (trim s) - 1)))"
        using seg c2w_time [OF emit(4), of wend] by simp
      have le: "a \<le> a + length (trim s) - 1" using len by arith
      show ?thesis
        using pa le emit(4) st en
        by (rule_tac x = a in exI, rule_tac x = "a + length (trim s) - 1" in exI) simp
    qed
  qed
qed

lemma segmentLoop_sorted:
  assumes "sorted (map wstart ws)"
  shows "sorted (map startTime (segmentLoop ft (buildCharToWordMapping ws) ws p i xs))"
proof (induction xs arbitrary: p i)
  case Nil
  then show ?case by simp
next
  case (Cons s rest)
  let ?m = "buildCharToWordMapping ws"
  show ?case
  proof (cases rule: segmentLoop_Cons_cases [of ft ?m ws p i s rest])
    case skip
    with Cons.IH show ?thesis by simp
  next
    case (emit a)
    have hd: "orZero (map_option wstart (wordAt ws (?m ! a))) = wstart (ws ! (?m ! a))"
      by (rule c2w_time [OF emit(3)])
    have "\<forall>seg \<in> set (segmentLoop ft ?m ws (a + length (trim s)) (i + 1) rest).
            wstart (ws ! (?m ! a)) \<le> startTime seg"
    proof
      fix seg assume "seg \<in> set (segmentLoop ft ?m ws (a + length (trim s)) (i + 1) rest)"
      from segmentLoop_spans [OF this] obtain a' b' where
        "a + length (trim s) \<le> a'" "a' \<le> b'" "b' < length ?m"
        "startTime seg = wstart (ws ! (?m ! a'))"
        by blast
      with word_time_mono [OF assms, of a a'] show "wstart (ws ! (?m ! a)) \<le> startTime seg"
        by simp
    qed
    with Cons.IH [of "a + length (trim s)" "i + 1"] emit(5) hd show ?thesis by simp
  qed
qed

lemma segmentLoop_duration:
  assumes "sorted (map wend ws)" and "seg \<in> set (segmentLoop ft (buildCharToWordMapping ws) ws p i xs)"
  shows "\<exists>w \<in> set ws. startTime seg = wstart w \<and> wend w \<le> endTime seg"
proof -
  let ?m = "buildCharToWordMapping ws"
  from segmentLoop_spans [OF assms(2)] obtain a b where
    ab: "a \<le> b" "b < length ?m" "startTime seg = wstart (ws ! (?m ! a))"
        "endTime seg = wend (ws ! (?m ! b))"
    by blast
  have "?m ! a < length ws"
    using c2wFrom_bounds [of a 0 ws] ab(1,2) by (simp add: buildCharToWordMapping_def)
  then have "ws ! (?m ! a) \<in> set ws" by simp
  moreover have "wend (ws ! (?m ! a)) \<le> endTime seg"
    using word_time_mono [OF assms(1) ab(1,2)] ab(4) by simp
  ultimately show ?thesis using ab(3) by blast
qed

lemma tokenize_empty: "tokenizeSentences [] = []"
  by (simp add: tokenizeSentences_def trim_def)

lemma segmentLoop_unmatched:
  assumes "trim x = x" and "x \<noteq> []" and "\<not> occursFrom ft x p"
  shows "segmentLoop ft c2w ws p i (x # rest) = segmentLoop ft c2w ws p (i + 1) rest"
  using assms indexOf_None_occurs [of x ft p] by simp

text \<open>
  C3, as stated, fails: a word of duration zero (start = end = 1, times non-negative and
  non-decreasing) that is a sentence of its own gives a segment with
  \<open>startTime = endTime\<close>.
\<close>
theorem zero_duration_counterexample:
  "sorted (map wstart (gatherWords zeroDuration)) \<and> sorted (map wend (gatherWords zeroDuration))
   \<and> 0 \<le> wstart (hd (gatherWords zeroDuration))
   \<and> wstart (hd (gatherWords zeroDuration)) \<le> wend (hd (gatherWords zeroDuration))
   \<and> processTranscriptionIntoSegments zeroDuration
       = [\<lparr> segId = 1, segText = js ''Hi.'', startTime = 1, endTime = 1 \<rparr>]
   \<and> \<not> startTime (hd (processTranscriptionIntoSegments zeroDuration))
         < endTime (hd (processTranscriptionIntoSegments zeroDuration))"
  by (simp add: zeroDuration_def aligner_eval)

text \<open>
  C3, amended. When the words' start times and end times are non-decreasing along the
  sequence and no word ends before it starts, the segments returned are in
  non-decreasing \<open>startTime\<close> order and every segment has \<open>startTime \<le> endTime\<close>; when
  moreover every word has start \<open><\<close> end, every segment has \<open>startTime < endTime\<close>.
\<close>
theorem segments_ordered:
  assumes "sorted (map wstart (gatherWords result))"
    and "sorted (map wend (gatherWords result))"
    and "\<forall>w \<in> set (gatherWords result). wstart w \<le> wend w"
  shows "sorted (map startTime (processTranscriptionIntoSegments result))
         \<and> (\<forall>seg \<in> set (processTranscriptionIntoSegments result). startTime seg \<le> endTime seg)
         \<and> ((\<forall>w \<in> set (gatherWords result). wstart w < wend w) \<longrightarrow>
              (\<forall>seg \<in> set (processTranscriptionIntoSegments result). startTime seg < endTime seg))"
proof (cases "gatherWords result = []")
  case True
  then show ?thesis by (simp add: processTranscriptionIntoSegments_def)
next
  case False
  let ?ws = "gatherWords result"
  let ?loop = "segmentLoop (fullTextOf ?ws) (buildCharToWordMapping ?ws) ?ws 0 0
                 (tokenizeSentences (fullTextOf ?ws))"
  have eq: "processTranscriptionIntoSegments result = ?loop"
    using False by (simp add: processTranscriptionIntoSegments_def Let_def)
  have s: "sorted (map startTime ?loop)" by (rule segmentLoop_sorted [OF assms(1)])
  have d: "\<exists>w \<in> set ?ws. startTime seg = wstart w \<and> wend w \<le> endTime seg"
    if "seg \<in> set ?loop" for seg
    using segmentLoop_duration [OF assms(2) that] .
  have le: "\<forall>seg \<in> set ?loop. startTime seg \<le> endTime seg"
  proof
    fix seg assume "seg \<in> set ?loop"
    from d [OF this] obtain w where "w \<in> set ?ws" "startTime seg = wstart w" "wend w \<le> endTime seg"
      by blast
    with assms(3) show "startTime seg \<le> endTime seg" by force
  qed
  have lt: "(\<forall>w \<in> set ?ws. wstart w < wend w) \<longrightarrow> (\<forall>seg \<in> set ?loop. startTime seg < endTime seg)"
  proof (intro impI ballI)
    fix seg assume p: "\<forall>w \<in> set ?ws. wstart w < wend w" and "seg \<in> set ?loop"
    from d [OF this(2)] obtain w where "w \<in> set ?ws" "startTime seg = wstart w" "wend w \<le> endTime seg"
      by blast
    with p show "startTime seg < endTime seg" by force
  qed
  show ?thesis unfolding eq using s le lt by blast
qed

theorem segments_ordered_witness:
  "sorted (map wstart (gatherWords hiBye)) \<and> sorted (map wend (gatherWords hiBye))
   \<and> map wstart (gatherWords hiBye) = [0, 1] \<and> map wend (gatherWords hiBye) = [1, 2]
   \<and> processTranscriptionIntoSegments hiBye
       = [\<lparr> segId = 1, segText = js ''Hi.'', startTime = 0, endTime = 1 \<rparr>,
          \<lparr> segId = 2, segText = js ''Bye.'', startTime = 1, endTime = 2 \<rparr>]
   \<and> sorted (map startTime (processTranscriptionIntoSegments hiBye))
   \<and> list_all (\<lambda>seg. startTime seg < endTime seg) (processTranscriptionIntoSegments hiBye)"
proof -
  have g: "gatherWords hiBye = [\<lparr> word = js ''Hi.'', wstart = 0, wend = 1 \<rparr>,
        \<lparr> word = js '' Bye.'', wstart = 1, wend = 2 \<rparr>]"
    by (simp add: hiBye_def gatherWords_def)
  have h1: "sorted (map wstart (gatherWords hiBye))" by (simp add: g)
  have h2: "sorted (map wend (gatherWords hiBye))" by (simp add: g)
  have h3: "\<forall>w \<in> set (gatherWords hiBye). wstart w \<le> wend w" by (simp add: g)
  have h4: "\<forall>w \<in> set (gatherWords hiBye). wstart w < wend w" by (simp add: g)
  have v: "processTranscriptionIntoSegments hiBye
       = [\<lparr> segId = 1, segText = js ''Hi.'', startTime = 0, endTime = 1 \<rparr>,
          \<lparr> segId = 2, segText = js ''Bye.'', startTime = 1, endTime = 2 \<rparr>]"
    by (simp add: hiBye_def aligner_eval)
  have a: "sorted (map startTime (processTranscriptionIntoSegments hiBye))"
    and b: "\<forall>seg \<in> set (processTranscriptionIntoSegments hiBye). startTime seg < endTime seg"
    using segments_ordered [OF h1 h2 h3] h4 by blast+
  have c: "list_all (\<lambda>seg. startTime seg < endTime seg) (processTranscriptionIntoSegments hiBye)"
    using b by (simp only: list_all_iff)
  show ?thesis
    using a c h1 h2 v by (simp add: g)
qed

text \<open>
  C7. Let the tokenized sentences be \<open>pre @ x # post\<close>, where \<open>x\<close> does not occur in the
  reference text as an exact substring at or after the search cursor reached after
  \<open>pre\<close>. Then the result is the segments of \<open>pre\<close> followed by the segments of \<open>post\<close>,
  the latter computed from the same cursor and with the numbering going on after \<open>x\<close>:
  \<open>x\<close> alone is skipped (no segment carries its number, the cursor does not move) and
  every other sentence is located and mapped as usual. The function is total: it has no
  failing branch, for this input or any other.
\<close>
theorem unmatched_sentence_skipped:
  assumes "ws = gatherWords result" and "ft = fullTextOf ws"
    and "c2w = buildCharToWordMapping ws"
    and "tokenizeSentences ft = pre @ x # post"
    and "\<not> occursFrom ft x (cursorAfter ft c2w 0 pre)"
  shows "processTranscriptionIntoSegments result =
           segmentLoop ft c2w ws 0 0 pre
           @ segmentLoop ft c2w ws (cursorAfter ft c2w 0 pre) (length pre + 1) post
         \<and> (\<forall>seg \<in> set (processTranscriptionIntoSegments result). segId seg \<noteq> length pre + 1)
         \<and> cursorAfter ft c2w 0 (pre @ [x]) = cursorAfter ft c2w 0 pre"
proof -
  have "x \<in> set (tokenizeSentences ft)" using assms(4) by simp
  then have x: "trim x = x" "x \<noteq> []" using tokenized_trimmed by blast+
  have ne: "ws \<noteq> []"
  proof
    assume "ws = []"
    then have "ft = []" using assms(2) by (simp add: fullTextOf_def trim_def)
    with assms(4) show False by (simp add: tokenize_empty)
  qed
  have none: "indexOf ft x (cursorAfter ft c2w 0 pre) = None"
    using indexOf_None_occurs [OF x(2)] assms(5) by simp
  have "processTranscriptionIntoSegments result = segmentLoop ft c2w ws 0 0 (pre @ x # post)"
    using ne assms(1-4) by (simp add: processTranscriptionIntoSegments_def Let_def)
  also have "\<dots> = segmentLoop ft c2w ws 0 0 pre
      @ segmentLoop ft c2w ws (cursorAfter ft c2w 0 pre) (0 + length pre) (x # post)"
    by (rule segmentLoop_append)
  also have "segmentLoop ft c2w ws (cursorAfter ft c2w 0 pre) (0 + length pre) (x # post)
      = segmentLoop ft c2w ws (cursorAfter ft c2w 0 pre) (length pre + 1) post"
    using segmentLoop_unmatched [OF x assms(5)] by simp
  finally have eq: "processTranscriptionIntoSegments result =
           segmentLoop ft c2w ws 0 0 pre
           @ segmentLoop ft c2w ws (cursorAfter ft c2w 0 pre) (length pre + 1) post" .
  have ids: "\<forall>seg \<in> set (processTranscriptionIntoSegments result). segId seg \<noteq> length pre + 1"
  proof
    fix seg assume "seg \<in> set (processTranscriptionIntoSegments result)"
    then consider "seg \<in> set (segmentLoop ft c2w ws 0 0 pre)"
      | "seg \<in> set (segmentLoop ft c2w ws (cursorAfter ft c2w 0 pre) (length pre + 1) post)"
      unfolding eq by auto
    then show "segId seg \<noteq> length pre + 1"
    proof cases
      case 1
      from segmentLoop_ids [OF this] show ?thesis by simp
    next
      case 2
      from segmentLoop_ids [OF this] show ?thesis by simp
    qed
  qed
  have cur: "cursorAfter ft c2w 0 (pre @ [x]) = cursorAfter ft c2w 0 pre"
  proof -
    have "cursorAfter ft c2w p (ys @ [x]) = cursorAfter ft c2w (cursorAfter ft c2w p ys) [x]" for p ys
      by (induction ys arbitrary: p) (auto simp: Let_def split: option.splits)
    then show ?thesis using x none by simp
  qed
  show ?thesis using eq ids cur by blast
qed

theorem unmatched_sentence_skipped_witness:
  "tokenizeSentences (fullTextOf (gatherWords doubleSpace)) = [js ''Hi.''] @ js ''Bye now.'' # [js ''Ok.'']
   \<and> fullTextOf (gatherWords doubleSpace) = js ''Hi. Bye  now. Ok.''
   \<and> cursorAfter (fullTextOf (gatherWords doubleSpace))
        (buildCharToWordMapping (gatherWords doubleSpace)) 0 [js ''Hi.''] = 3
   \<and> \<not> occursFrom (fullTextOf (gatherWords doubleSpace)) (js ''Bye now.'') 3
   \<and> processTranscriptionIntoSegments doubleSpace
       = [\<lparr> segId = 1, segText = js ''Hi.'', startTime = 0, endTime = 1 \<rparr>,
          \<lparr> segId = 3, segText = js ''Ok.'', startTime = 3, endTime = 4 \<rparr>]"
proof -
  let ?ws = "gatherWords doubleSpace"
  let ?ft = "fullTextOf ?ws"
  let ?m = "buildCharToWordMapping ?ws"
  have ft: "?ft = js ''Hi. Bye  now. Ok.''"
    by (simp add: doubleSpace_def aligner_eval)
  have tok: "tokenizeSentences ?ft = [js ''Hi.''] @ js ''Bye now.'' # [js ''Ok.'']"
    unfolding ft by (simp add: aligner_eval)
  have m: "?m = [0, 0, 0, 1, 1, 1, 1, 2, 2, 2, 2, 2, 2, 3, 3, 3, 3]"
    by (simp add: doubleSpace_def aligner_eval)
  have cur: "cursorAfter ?ft ?m 0 [js ''Hi.''] = 3"
    unfolding ft m by (simp add: aligner_eval)
  have "indexOf ?ft (js ''Bye now.'') 3 = None"
    unfolding ft by (simp add: aligner_eval)
  moreover have "js ''Bye now.'' \<noteq> []" by (simp add: js_def)
  ultimately have occ: "\<not> occursFrom ?ft (js ''Bye now.'') (cursorAfter ?ft ?m 0 [js ''Hi.''])"
    using indexOf_None_occurs [of "js ''Bye now.''" ?ft 3] cur by simp
  have l1: "segmentLoop ?ft ?m ?ws 0 0 [js ''Hi.'']
      = [\<lparr> segId = 1, segText = js ''Hi.'', startTime = 0, endTime = 1 \<rparr>]"
    unfolding ft m by (simp add: doubleSpace_def aligner_eval)
  have l2: "segmentLoop ?ft ?m ?ws 3 (length [js ''Hi.''] + 1) [js ''Ok.'']
      = [\<lparr> segId = 3, segText = js ''Ok.'', startTime = 3, endTime = 4 \<rparr>]"
    unfolding ft m by (simp add: doubleSpace_def aligner_eval)
  from unmatched_sentence_skipped [OF refl refl refl tok occ]
  have "processTranscriptionIntoSegments doubleSpace =
           segmentLoop ?ft ?m ?ws 0 0 [js ''Hi.'']
           @ segmentLoop ?ft ?m ?ws (cursorAfter ?ft ?m 0 [js ''Hi.'']) (length [js ''Hi.''] + 1) [js ''Ok.'']"
    by blast
  then have r: "processTranscriptionIntoSegments doubleSpace
       = [\<lparr> segId = 1, segText = js ''Hi.'', startTime = 0, endTime = 1 \<rparr>,
          \<lparr> segId = 3, segText = js ''Ok.'', startTime = 3, endTime = 4 \<rparr>]"
    unfolding cur l1 l2 by simp
  show ?thesis using tok ft cur occ r by simp
qed


end
